theory Spec2Isabelle
  imports Main "HOL-Library.Product_Lexorder"
begin

section \<open>Daily-Habits server: the store, the initialization guard and the tools\<close>

text \<open>
  A shallow embedding of \<^verbatim>\<open>main.py\<close>. Every tool of the server is a function from
  the environment of one call and the state before it to the outcome (an exception as
  \<open>Inl\<close>, a returned value as \<open>Inr\<close>) and the state after it. The state is the pair of
  module globals \<^verbatim>\<open>_db_initialized\<close>, \<^verbatim>\<open>_db_init_lock\<close> and the SQLite database
  file. The SQL statements are translated to list operations on the two tables.
\<close>

subsection \<open>Dates and timestamps\<close>

text \<open>
  A Python \<^verbatim>\<open>date\<close> is its proleptic Gregorian ordinal (\<^verbatim>\<open>date.toordinal()\<close>):
  \<^verbatim>\<open>date.min\<close> = 0001-01-01 has ordinal 1 and \<^verbatim>\<open>date.max\<close> = 9999-12-31 has ordinal
  3652059. \<^verbatim>\<open>date - timedelta(days=k)\<close> raises OverflowError when the result leaves
  that range.
\<close>

type_synonym date = int

datatype error = OverflowError | StoreError string

definition date_min :: date where
  "date_min = 1"

definition date_max :: date where
  "date_max = 3652059"

definition date_sub :: "date \<Rightarrow> int \<Rightarrow> error + date" where
  "date_sub d k =
     (let ordinal = d - k
      in if 0 < ordinal \<and> ordinal \<le> date_max then Inr ordinal else Inl OverflowError)"

text \<open>
  A stored \<^verbatim>\<open>CURRENT_TIMESTAMP\<close> (text \<^verbatim>\<open>YYYY-MM-DD HH:MM:SS\<close>): the calendar day
  and the second within it. SQLite's \<^verbatim>\<open>DATE(...)\<close> keeps the day; the text order of
  two timestamps is the lexicographic order of the pair.
\<close>

record timestamp =
  ts_day :: date
  ts_secs :: nat

definition ts_key :: "timestamp \<Rightarrow> int \<times> nat" where
  "ts_key t = (ts_day t, ts_secs t)"

subsection \<open>The two tables\<close>

record habit =
  h_id :: int
  h_name :: string
  h_description :: string
  h_created_at :: timestamp
  h_is_active :: bool

record completion =
  c_id :: int
  c_habit_id :: int
  c_completion_date :: timestamp

text \<open>
  The tables once \<^verbatim>\<open>init_db\<close> has created them. Both primary keys are
  \<^verbatim>\<open>AUTOINCREMENT\<close>: SQLite keeps the largest key ever handed out per table and the
  next row gets that plus one, so a key is never reused after a delete.
\<close>

record tables =
  habits :: "habit list"
  habit_completions :: "completion list"
  habits_seq :: int
  completions_seq :: int

text \<open>The database file: \<open>None\<close> until the schema has been created.\<close>

type_synonym store = "tables option"

definition empty_tables :: tables where
  "empty_tables = \<lparr>habits = [], habit_completions = [], habits_seq = 0, completions_seq = 0\<rparr>"

definition stored_habits :: "store \<Rightarrow> habit list" where
  "stored_habits s = (case s of None \<Rightarrow> [] | Some t \<Rightarrow> habits t)"

definition stored_completions :: "store \<Rightarrow> completion list" where
  "stored_completions s = (case s of None \<Rightarrow> [] | Some t \<Rightarrow> habit_completions t)"

subsection \<open>Process state and the environment of a call\<close>

text \<open>
  \<open>db_init_lock\<close> is \<^verbatim>\<open>_db_init_lock\<close>: \<open>None\<close> before the lock object exists,
  \<open>Some b\<close> afterwards with \<open>b\<close> telling whether it is held.
\<close>

record state =
  db_initialized :: bool
  db_init_lock :: "bool option"
  db :: store

text \<open>
  What one call reads from outside the program: \<^verbatim>\<open>date.today()\<close> of the process,
  SQLite's \<^verbatim>\<open>CURRENT_TIMESTAMP\<close>, the exception (if any) with which the store makes
  \<^verbatim>\<open>init_db\<close> fail during this call, and the exception (if any) with which it
  refuses the connection the tool opens for itself.
\<close>

record env =
  today :: date
  now :: timestamp
  init_fault :: "error option"
  conn_fault :: "error option"

subsection \<open>Schema creation and the guard\<close>

text \<open>
  \<^verbatim>\<open>init_db\<close>: both statements are \<^verbatim>\<open>CREATE TABLE IF NOT EXISTS\<close>, so existing tables
  and their rows are kept.
\<close>

definition create_tables :: "store \<Rightarrow> tables" where
  "create_tables s = (case s of None \<Rightarrow> empty_tables | Some t \<Rightarrow> t)"

definition init_db :: "env \<Rightarrow> store \<Rightarrow> (error + unit) \<times> store" where
  "init_db e s =
     (case init_fault e of
        Some err \<Rightarrow> (Inl err, s)
      | None \<Rightarrow> (Inr (), Some (create_tables s)))"

definition get_db_init_lock :: "state \<Rightarrow> state" where
  "get_db_init_lock st =
     (if db_init_lock st = None then st\<lparr>db_init_lock := Some False\<rparr> else st)"

text \<open>
  \<^verbatim>\<open>ensure_db_initialized\<close>, run without interleaving: the flag is tested, the lock is
  made if need be and taken, the flag is tested again, \<^verbatim>\<open>init_db\<close> runs, and only
  then the flag is set. \<^verbatim>\<open>async with\<close> releases the lock on every way out.
\<close>

definition ensure_db_initialized :: "env \<Rightarrow> state \<Rightarrow> (error + unit) \<times> state" where
  "ensure_db_initialized e st =
     (if db_initialized st then (Inr (), st)
      else
        let st1 = (get_db_init_lock st)\<lparr>db_init_lock := Some True\<rparr>
        in if db_initialized st1 then (Inr (), st1\<lparr>db_init_lock := Some False\<rparr>)
           else
             (case init_db e (db st1) of
                (Inl err, s) \<Rightarrow> (Inl err, st1\<lparr>db := s, db_init_lock := Some False\<rparr>)
              | (Inr u, s) \<Rightarrow>
                  (Inr (), st1\<lparr>db := s, db_initialized := True, db_init_lock := Some False\<rparr>)))"

text \<open>
  Module import (the last statement of the file calls \<^verbatim>\<open>_ensure_db_initialized\<close>):
  the globals get their initial values and \<^verbatim>\<open>init_db\<close> runs once on the database
  file left by earlier runs, without touching the flag.
\<close>

definition process_start :: "env \<Rightarrow> store \<Rightarrow> state" where
  "process_start e s =
     \<lparr>db_initialized = False, db_init_lock = None, db = snd (init_db e s)\<rparr>"

text \<open>
  The connection a tool opens for its own statements: it fails with the store's
  exception, and the first statement on a database without tables fails with SQLite's
  \<^verbatim>\<open>no such table\<close>.
\<close>

definition connect :: "env \<Rightarrow> store \<Rightarrow> error + tables" where
  "connect e s =
     (case conn_fault e of
        Some err \<Rightarrow> Inl err
      | None \<Rightarrow> (case s of None \<Rightarrow> Inl (StoreError ''no such table'') | Some t \<Rightarrow> Inr t))"

text \<open>
  A Python \<^verbatim>\<open>int\<close> bound to a \<^verbatim>\<open>?\<close> of a statement: SQLite integers are signed
  64-bit, and \<^verbatim>\<open>sqlite3\<close> raises OverflowError (\<^verbatim>\<open>Python int too large to convert to
  SQLite INTEGER\<close>) for any other value, before the statement runs.
\<close>

definition sqlite_int :: "int \<Rightarrow> bool" where
  "sqlite_int i = (- (2 ^ 63) \<le> i \<and> i < 2 ^ 63)"

definition bind_int :: "int \<Rightarrow> error + int" where
  "bind_int i = (if sqlite_int i then Inr i else Inl OverflowError)"

subsection \<open>Formatting\<close>

function digits :: "nat \<Rightarrow> string" where
  "digits n =
     (if n < 10 then [char_of (48 + n)] else digits (n div 10) @ [char_of (48 + n mod 10)])"
  by pat_completeness auto
termination
  by (relation "measure id") auto

definition str_int :: "int \<Rightarrow> string" where
  "str_int i = (if i < 0 then CHR ''-'' # digits (nat (- i)) else digits (nat i))"

subsection \<open>The tools\<close>

text \<open>
  \<^verbatim>\<open>INSERT INTO habits (name, description) VALUES (?, ?)\<close>: the key comes from the
  sequence, \<^verbatim>\<open>created_at\<close> and \<^verbatim>\<open>is_active\<close> take their defaults.
\<close>

definition insert_habit :: "string \<Rightarrow> string \<Rightarrow> timestamp \<Rightarrow> tables \<Rightarrow> tables" where
  "insert_habit name description ts t =
     (let new_id = habits_seq t + 1;
          row = \<lparr>h_id = new_id, h_name = name, h_description = description,
                 h_created_at = ts, h_is_active = True\<rparr>
      in t\<lparr>habits := habits t @ [row], habits_seq := new_id\<rparr>)"

definition add_habit :: "env \<Rightarrow> string \<Rightarrow> string \<Rightarrow> state \<Rightarrow> (error + string) \<times> state" where
  "add_habit e name description st =
     (case ensure_db_initialized e st of
        (Inl err, st1) \<Rightarrow> (Inl err, st1)
      | (Inr u, st1) \<Rightarrow>
          (case connect e (db st1) of
             Inl err \<Rightarrow> (Inl err, st1)
           | Inr t \<Rightarrow>
               (Inr (''Habit '' @ [CHR 0x27] @ name @ [CHR 0x27] @ '' added successfully.''),
                st1\<lparr>db := Some (insert_habit name description (now e) t)\<rparr>)))"

definition list_habits :: "env \<Rightarrow> state \<Rightarrow> (error + habit list) \<times> state" where
  "list_habits e st =
     (case ensure_db_initialized e st of
        (Inl err, st1) \<Rightarrow> (Inl err, st1)
      | (Inr u, st1) \<Rightarrow>
          (case connect e (db st1) of
             Inl err \<Rightarrow> (Inl err, st1)
           | Inr t \<Rightarrow> (Inr (habits t), st1)))"

definition habit_exists :: "int \<Rightarrow> tables \<Rightarrow> bool" where
  "habit_exists habit_id t = (filter (\<lambda>h. h_id h = habit_id) (habits t) \<noteq> [])"

text \<open>
  \<^verbatim>\<open>INSERT INTO habit_completions (habit_id) VALUES (?)\<close> with foreign keys on: the
  store refuses a row whose habit is not there.
\<close>

definition insert_completion :: "int \<Rightarrow> timestamp \<Rightarrow> tables \<Rightarrow> error + tables" where
  "insert_completion habit_id ts t =
     (if habit_exists habit_id t
      then
        let new_id = completions_seq t + 1;
            row = \<lparr>c_id = new_id, c_habit_id = habit_id, c_completion_date = ts\<rparr>
        in Inr (t\<lparr>habit_completions := habit_completions t @ [row], completions_seq := new_id\<rparr>)
      else Inl (StoreError ''FOREIGN KEY constraint failed''))"

definition complete_habit :: "env \<Rightarrow> int \<Rightarrow> state \<Rightarrow> (error + string) \<times> state" where
  "complete_habit e habit_id st =
     (case ensure_db_initialized e st of
        (Inl err, st1) \<Rightarrow> (Inl err, st1)
      | (Inr u, st1) \<Rightarrow>
          (case connect e (db st1) of
             Inl err \<Rightarrow> (Inl err, st1)
           | Inr t \<Rightarrow>
               (case bind_int habit_id of
                  Inl err \<Rightarrow> (Inl err, st1)
                | Inr key \<Rightarrow>
                    if \<not> habit_exists key t
                    then (Inr (''Habit '' @ str_int habit_id @ '' does not exist.''), st1)
                    else
                      (case insert_completion key (now e) t of
                         Inl err \<Rightarrow> (Inl err, st1)
                       | Inr t' \<Rightarrow>
                           (Inr (''Habit '' @ str_int habit_id @
                                 '' marked as completed for today.''),
                            st1\<lparr>db := Some t'\<rparr>)))))"

text \<open>
  The join of \<^verbatim>\<open>list_completions\<close>: one row per completion and matching habit, most
  recent first. SQL leaves the order of rows with equal timestamps open; the model
  keeps the one its sort produces.
\<close>

definition joined_rows :: "tables \<Rightarrow> (int \<times> string \<times> timestamp) list" where
  "joined_rows t =
     concat (map (\<lambda>hc. map (\<lambda>h. (c_id hc, h_name h, c_completion_date hc))
                          (filter (\<lambda>h. c_habit_id hc = h_id h) (habits t)))
                 (habit_completions t))"

definition list_completions ::
  "env \<Rightarrow> state \<Rightarrow> (error + (int \<times> string \<times> timestamp) list) \<times> state" where
  "list_completions e st =
     (case ensure_db_initialized e st of
        (Inl err, st1) \<Rightarrow> (Inl err, st1)
      | (Inr u, st1) \<Rightarrow>
          (case connect e (db st1) of
             Inl err \<Rightarrow> (Inl err, st1)
           | Inr t \<Rightarrow>
               (Inr (rev (sort_key (\<lambda>(i, n, ts). ts_key ts) (joined_rows t))), st1)))"

text \<open>
  \<^verbatim>\<open>DELETE FROM habits WHERE id = ?\<close> with foreign keys on: the cascade of the schema
  removes the completions of each habit row that the statement deletes. When no row
  matches, nothing is deleted and nothing cascades.
\<close>

definition delete_rows :: "int \<Rightarrow> tables \<Rightarrow> tables" where
  "delete_rows habit_id t =
     (if habit_exists habit_id t
      then t\<lparr>habits := filter (\<lambda>h. h_id h \<noteq> habit_id) (habits t),
             habit_completions := filter (\<lambda>hc. c_habit_id hc \<noteq> habit_id) (habit_completions t)\<rparr>
      else t)"

definition delete_habit :: "env \<Rightarrow> int \<Rightarrow> state \<Rightarrow> (error + string) \<times> state" where
  "delete_habit e habit_id st =
     (case ensure_db_initialized e st of
        (Inl err, st1) \<Rightarrow> (Inl err, st1)
      | (Inr u, st1) \<Rightarrow>
          (case connect e (db st1) of
             Inl err \<Rightarrow> (Inl err, st1)
           | Inr t \<Rightarrow>
               (case bind_int habit_id of
                  Inl err \<Rightarrow> (Inl err, st1)
                | Inr key \<Rightarrow>
                    (Inr (''Habit '' @ str_int habit_id @ '' deleted successfully.''),
                     st1\<lparr>db := Some (delete_rows key t)\<rparr>))))"

subsection \<open>The streak\<close>

text \<open>
  \<^verbatim>\<open>SELECT DISTINCT DATE(completion_date) AS day ... WHERE habit_id = ? ORDER BY day DESC\<close>.
\<close>

definition completion_day_rows :: "int \<Rightarrow> tables \<Rightarrow> date list" where
  "completion_day_rows habit_id t =
     rev (sort (remdups (map (\<lambda>hc. ts_day (c_completion_date hc))
                             (filter (\<lambda>hc. c_habit_id hc = habit_id) (habit_completions t)))))"

text \<open>
  The \<^verbatim>\<open>while True\<close> loop, with \<open>streak\<close> as its only variable. Each round computes
  \<^verbatim>\<open>today - timedelta(days=streak)\<close>, which raises below \<^verbatim>\<open>date.min\<close>.
\<close>

function streak_loop :: "date \<Rightarrow> date set \<Rightarrow> nat \<Rightarrow> error + nat" where
  "streak_loop tday completion_days streak =
     (case date_sub tday (int streak) of
        Inl err \<Rightarrow> Inl err
      | Inr current_day \<Rightarrow>
          if current_day \<in> completion_days
          then streak_loop tday completion_days (streak + 1)
          else Inr streak)"
  by pat_completeness auto
termination
  by (relation "measure (\<lambda>(tday, completion_days, streak). nat (tday - int streak))")
     (auto simp: date_sub_def Let_def split: if_splits)

definition get_current_streak :: "env \<Rightarrow> int \<Rightarrow> state \<Rightarrow> (error + nat) \<times> state" where
  "get_current_streak e habit_id st =
     (case ensure_db_initialized e st of
        (Inl err, st1) \<Rightarrow> (Inl err, st1)
      | (Inr u, st1) \<Rightarrow>
          (case connect e (db st1) of
             Inl err \<Rightarrow> (Inl err, st1)
           | Inr t \<Rightarrow>
               (case bind_int habit_id of
                  Inl err \<Rightarrow> (Inl err, st1)
                | Inr key \<Rightarrow>
                    let rows = completion_day_rows key t
                    in if rows = [] then (Inr 0, st1)
                       else (streak_loop (today e) (set rows) 0, st1))))"

text \<open>
  The number of rounds the loop above makes from a given value of \<open>streak\<close>: the same
  recursion, counting one for each evaluation of the loop body (the round that breaks
  or raises included).
\<close>

function streak_rounds :: "date \<Rightarrow> date set \<Rightarrow> nat \<Rightarrow> nat" where
  "streak_rounds tday completion_days streak =
     (case date_sub tday (int streak) of
        Inl err \<Rightarrow> 1
      | Inr current_day \<Rightarrow>
          if current_day \<in> completion_days
          then 1 + streak_rounds tday completion_days (streak + 1)
          else 1)"
  by pat_completeness auto
termination
  by (relation "measure (\<lambda>(tday, completion_days, streak). nat (tday - int streak))")
     (auto simp: date_sub_def Let_def split: if_splits)

subsection \<open>Histories of calls\<close>

datatype call =
    AddHabit string string
  | ListHabits
  | CompleteHabit int
  | ListCompletions
  | DeleteHabit int
  | GetCurrentStreak int
  | Restart

text \<open>
  The state after one call; \<open>Restart\<close> ends the process and imports the module again
  on the database file it left.
\<close>

fun step :: "env \<Rightarrow> call \<Rightarrow> state \<Rightarrow> state" where
  "step e (AddHabit name description) st = snd (add_habit e name description st)"
| "step e ListHabits st = snd (list_habits e st)"
| "step e (CompleteHabit habit_id) st = snd (complete_habit e habit_id st)"
| "step e ListCompletions st = snd (list_completions e st)"
| "step e (DeleteHabit habit_id) st = snd (delete_habit e habit_id st)"
| "step e (GetCurrentStreak habit_id) st = snd (get_current_streak e habit_id st)"
| "step e Restart st = process_start e (db st)"

fun run :: "(env \<times> call) list \<Rightarrow> state \<Rightarrow> state" where
  "run [] st = st"
| "run ((e, c) # cs) st = run cs (step e c st)"

text \<open>
  A state is reachable when a history of calls leads to it from the first start of the
  server on a machine without a database file.
\<close>

definition reachable :: "state \<Rightarrow> bool" where
  "reachable st = (\<exists>e0 cs. st = run cs (process_start e0 None))"

subsection \<open>Concurrent calls of the guard\<close>

text \<open>
  The tools are coroutines of one event loop: one runs at a time, and it gives up
  control only at an \<^verbatim>\<open>await\<close> that has to wait. In \<^verbatim>\<open>ensure_db_initialized\<close> these are
  the entry of \<^verbatim>\<open>async with _get_db_init_lock()\<close> while the lock is held by another
  call, and \<^verbatim>\<open>await init_db()\<close>. So a call of the guard is at one of these places:
  not yet started, waiting for the lock, inside \<^verbatim>\<open>init_db\<close> with the lock held,
  returned, or left by an exception.
\<close>

datatype guard_pc = Start | Waiting | Creating | Returned | Raised error

text \<open>
  A process with several calls of the guard under way: the module globals and the
  database file as before, the place of each call, and whether the task that
  \<^verbatim>\<open>_ensure_db_initialized\<close> made at import with \<^verbatim>\<open>loop.create_task(init_db())\<close> has
  still to run. Two counters record the schema creations completed so far, one for each
  place where the program calls \<^verbatim>\<open>init_db\<close>: at import and inside the guard.
\<close>

record process = state +
  import_pending :: bool
  import_creations :: nat
  guard_creations :: nat
  calls :: "guard_pc list"

definition set_call :: "nat \<Rightarrow> guard_pc \<Rightarrow> process \<Rightarrow> process" where
  "set_call i p w = w\<lparr>calls := (calls w)[i := p]\<rparr>"

text \<open>
  A call has got the lock: it tests the flag a second time, and either returns
  (releasing the lock) or starts \<^verbatim>\<open>init_db\<close> and waits for it, the lock held.
\<close>

definition lock_taken :: "nat \<Rightarrow> process \<Rightarrow> process" where
  "lock_taken i w =
     (if db_initialized w then set_call i Returned (w\<lparr>db_init_lock := Some False\<rparr>)
      else set_call i Creating (w\<lparr>db_init_lock := Some True\<rparr>))"

text \<open>
  Call \<open>i\<close> runs from where it is to its next suspension point or to its end. A new
  call tests the flag, then takes the lock if it is free and waits otherwise; a waiting
  call goes on once the lock is free; a call inside \<^verbatim>\<open>init_db\<close> gets its outcome, sets
  the flag if there was no exception, and releases the lock. A call that cannot go on,
  or has ended, stays where it is. (Any call may take a free lock here, also when
  others wait for it: \<^verbatim>\<open>asyncio.Lock\<close> allows fewer orders, not more.)
\<close>

definition guard_step :: "env \<Rightarrow> nat \<Rightarrow> process \<Rightarrow> process" where
  "guard_step e i w =
     (if length (calls w) \<le> i then w
      else
        (case calls w ! i of
           Start \<Rightarrow>
             if db_initialized w then set_call i Returned w
             else if db_init_lock w = Some True then set_call i Waiting w
             else lock_taken i w
         | Waiting \<Rightarrow> if db_init_lock w = Some True then w else lock_taken i w
         | Creating \<Rightarrow>
             (case init_db e (db w) of
                (Inl err, s) \<Rightarrow>
                  set_call i (Raised err) (w\<lparr>db := s, db_init_lock := Some False\<rparr>)
              | (Inr u, s) \<Rightarrow>
                  set_call i Returned
                    (w\<lparr>db := s, db_initialized := True, db_init_lock := Some False,
                       guard_creations := guard_creations w + 1\<rparr>))
         | Returned \<Rightarrow> w
         | Raised err \<Rightarrow> w))"

text \<open>
  The task made at import runs \<^verbatim>\<open>init_db\<close> without the lock and without touching the
  flag; an exception of it is kept in the task and reaches no caller.
\<close>

definition import_step :: "env \<Rightarrow> process \<Rightarrow> process" where
  "import_step e w =
     (if import_pending w
      then
        (case init_db e (db w) of
           (Inl err, s) \<Rightarrow> w\<lparr>db := s, import_pending := False\<rparr>
         | (Inr u, s) \<Rightarrow>
             w\<lparr>db := s, import_pending := False, import_creations := import_creations w + 1\<rparr>)
      else w)"

text \<open>
  A schedule names, turn by turn, who runs next (a call of the guard or the task of the
  import) together with what the store does to \<^verbatim>\<open>init_db\<close> in that turn.
\<close>

datatype turn = GuardCall nat | ImportTask

fun turn_step :: "env \<Rightarrow> turn \<Rightarrow> process \<Rightarrow> process" where
  "turn_step e (GuardCall i) w = guard_step e i w"
| "turn_step e ImportTask w = import_step e w"

fun interleave :: "(env \<times> turn) list \<Rightarrow> process \<Rightarrow> process" where
  "interleave [] w = w"
| "interleave ((e, t) # sched) w = interleave sched (turn_step e t w)"


subsection \<open>Notions used by the properties\<close>

text \<open>The store answers every request of the call.\<close>

definition no_fault :: "env \<Rightarrow> bool" where
  "no_fault e = (init_fault e = None \<and> conn_fault e = None)"

text \<open>The flag is only set once the tables exist.\<close>

definition consistent :: "state \<Rightarrow> bool" where
  "consistent st = (db_initialized st \<longrightarrow> db st \<noteq> None)"

text \<open>The calendar days on which a habit has at least one stored completion.\<close>

definition completion_dates :: "int \<Rightarrow> store \<Rightarrow> date set" where
  "completion_dates habit_id s =
     (\<lambda>hc. ts_day (c_completion_date hc)) `
       {hc \<in> set (stored_completions s). c_habit_id hc = habit_id}"

text \<open>A habit with the given key is stored.\<close>

definition habit_stored :: "int \<Rightarrow> store \<Rightarrow> bool" where
  "habit_stored habit_id s = (\<exists>h \<in> set (stored_habits s). h_id h = habit_id)"

text \<open>
  Keys follow the sequences: no stored key exceeds the largest key handed out, and no
  key occurs twice in its table.
\<close>

definition keys_in_sequence :: "tables \<Rightarrow> bool" where
  "keys_in_sequence t =
     ((\<forall>h \<in> set (habits t). h_id h \<le> habits_seq t) \<and>
      (\<forall>hc \<in> set (habit_completions t). c_id hc \<le> completions_seq t) \<and>
      distinct (map h_id (habits t)) \<and> distinct (map c_id (habit_completions t)))"

text \<open>Every completion row belongs to a habit row of the same tables.\<close>

definition referential_integrity :: "tables \<Rightarrow> bool" where
  "referential_integrity t =
     (\<forall>hc \<in> set (habit_completions t). habit_exists (c_habit_id hc) t)"

definition store_inv :: "store \<Rightarrow> bool" where
  "store_inv s =
     (case s of None \<Rightarrow> True | Some t \<Rightarrow> keys_in_sequence t \<and> referential_integrity t)"

text \<open>No stored habit has the empty name; no call of a history adds one with it.\<close>

definition names_nonempty :: "store \<Rightarrow> bool" where
  "names_nonempty s = (\<forall>h \<in> set (stored_habits s). h_name h \<noteq> [])"

definition adds_nonempty :: "(env \<times> call) list \<Rightarrow> bool" where
  "adds_nonempty cs = (\<forall>(e, c) \<in> set cs. \<forall>n d. c = AddHabit n d \<longrightarrow> n \<noteq> [])"

text \<open>
  A key that has been handed out and whose habit is gone: the sequence has passed it,
  no habit and no completion carries it.
\<close>

definition key_retired :: "int \<Rightarrow> store \<Rightarrow> bool" where
  "key_retired habit_id s =
     (case s of
        None \<Rightarrow> False
      | Some t \<Rightarrow>
          habit_id \<le> habits_seq t \<and> \<not> habit_exists habit_id t \<and>
          (\<forall>hc \<in> set (habit_completions t). c_habit_id hc \<noteq> habit_id))"



text \<open>An environment and a day used in the worked examples: 2024-01-10, noon.\<close>

definition env0 :: env where
  "env0 = \<lparr>today = 738895, now = \<lparr>ts_day = 738895, ts_secs = 43200\<rparr>,
           init_fault = None, conn_fault = None\<rparr>"

text \<open>
  The state after adding the habit "Exercise" and completing it twice on that day, in a
  process started on a machine without a database file.
\<close>

definition history_example :: "(env \<times> call) list" where
  "history_example =
     [(env0, AddHabit ''Exercise'' []), (env0, CompleteHabit 1), (env0, CompleteHabit 1)]"

definition st_example :: state where
  "st_example = run history_example (process_start env0 None)"

text \<open>What happens next in the example: another habit is added and completed.\<close>

definition later_example :: "(env \<times> call) list" where
  "later_example = [(env0, AddHabit ''Read'' []), (env0, CompleteHabit 2)]"

text \<open>The tables of that state, and a third completion of the habit later on the same day.\<close>

definition tables_example :: tables where
  "tables_example =
     \<lparr>habits =
        [\<lparr>h_id = 1, h_name = ''Exercise'', h_description = [],
          h_created_at = \<lparr>ts_day = 738895, ts_secs = 43200\<rparr>, h_is_active = True\<rparr>],
      habit_completions =
        [\<lparr>c_id = 1, c_habit_id = 1,
          c_completion_date = \<lparr>ts_day = 738895, ts_secs = 43200\<rparr>\<rparr>,
         \<lparr>c_id = 2, c_habit_id = 1,
          c_completion_date = \<lparr>ts_day = 738895, ts_secs = 43200\<rparr>\<rparr>],
      habits_seq = 1, completions_seq = 2\<rparr>"

definition completion_again :: completion where
  "completion_again =
     \<lparr>c_id = 3, c_habit_id = 1, c_completion_date = \<lparr>ts_day = 738895, ts_secs = 50000\<rparr>\<rparr>"





section \<open>Properties\<close>

subsection \<open>The guard and the rows\<close>

lemma guard_rows:
  "stored_habits (db (snd (ensure_db_initialized e st))) = stored_habits (db st) \<and>
   stored_completions (db (snd (ensure_db_initialized e st))) = stored_completions (db st)"
  by (auto simp: ensure_db_initialized_def init_db_def create_tables_def get_db_init_lock_def Let_def
        stored_habits_def stored_completions_def empty_tables_def
        split: option.splits prod.splits sum.splits)

text \<open>
  C10. \<^verbatim>\<open>get_current_streak\<close>, \<^verbatim>\<open>list_habits\<close> and \<^verbatim>\<open>list_completions\<close> are read-only:
  for every environment (faults of the store included), every argument and every
  starting state, the habit rows and the completion rows after the call are exactly
  those before it. The guard these tools run first may create the tables and set the
  flag, which adds no row.
\<close>

theorem read_only_tools_keep_rows:
  "stored_habits (db (snd (get_current_streak e habit_id st))) = stored_habits (db st) \<and>
   stored_completions (db (snd (get_current_streak e habit_id st))) = stored_completions (db st) \<and>
   stored_habits (db (snd (list_habits e st))) = stored_habits (db st) \<and>
   stored_completions (db (snd (list_habits e st))) = stored_completions (db st) \<and>
   stored_habits (db (snd (list_completions e st))) = stored_habits (db st) \<and>
   stored_completions (db (snd (list_completions e st))) = stored_completions (db st)"
  using guard_rows[of e st]
  by (auto simp: get_current_streak_def list_habits_def list_completions_def Let_def
        split: prod.splits sum.splits)

lemma guard_ok:
  assumes "no_fault e" "consistent st"
  shows "\<exists>st1 t. ensure_db_initialized e st = (Inr (), st1) \<and> db st1 = Some t \<and>
          connect e (db st1) = Inr t \<and>
          habits t = stored_habits (db st) \<and>
          habit_completions t = stored_completions (db st) \<and> db_initialized st1"
  using assms
  by (auto simp: ensure_db_initialized_def init_db_def create_tables_def get_db_init_lock_def Let_def
        no_fault_def consistent_def connect_def
        stored_habits_def stored_completions_def empty_tables_def
        split: option.splits)

subsection \<open>The worked example\<close>

lemma st_example_eval:
  "st_example =
     \<lparr>db_initialized = True, db_init_lock = Some False, db = Some tables_example\<rparr>"
  by (simp add: st_example_def history_example_def tables_example_def process_start_def init_db_def create_tables_def env0_def
        add_habit_def complete_habit_def ensure_db_initialized_def get_db_init_lock_def
        connect_def Let_def empty_tables_def habit_exists_def insert_habit_def
        insert_completion_def bind_int_def sqlite_int_def)

lemma completion_dates_list:
  "completion_dates habit_id s =
     set (map (\<lambda>hc. ts_day (c_completion_date hc))
            (filter (\<lambda>hc. c_habit_id hc = habit_id) (stored_completions s)))"
  by (auto simp: completion_dates_def)

lemma st_example_dates:
  "completion_dates 1 (db st_example) = {738895}"
  "completion_dates 7 (db st_example) = {}"
  by (simp_all add: completion_dates_list st_example_eval tables_example_def
        stored_completions_def)

lemma st_example_ok: "no_fault env0" "consistent st_example"
  by (simp_all add: no_fault_def env0_def consistent_def st_example_eval)

lemma st_example_stored: "habit_stored 1 (db st_example)" "\<not> habit_stored 7 (db st_example)"
  by (simp_all add: habit_stored_def stored_habits_def st_example_eval tables_example_def)

subsection \<open>The guard after a failed schema creation\<close>



subsection \<open>Concurrent calls of the guard\<close>


















text \<open>
  One call on its own, given two turns, does what the function \<open>ensure_db_initialized\<close>
  of the sequential model does.
\<close>

lemma solo_call_is_guard:
  assumes "calls w = [Start]" "db_init_lock w \<noteq> Some True"
    and "st = \<lparr>db_initialized = db_initialized w, db_init_lock = db_init_lock w, db = db w\<rparr>"
    and "w' = interleave [(e, GuardCall 0), (e, GuardCall 0)] w"
  shows "db_initialized w' = db_initialized (snd (ensure_db_initialized e st)) \<and>
         db w' = db (snd (ensure_db_initialized e st)) \<and>
         db_init_lock w' = db_init_lock (snd (ensure_db_initialized e st)) \<and>
         calls w' =
           [case fst (ensure_db_initialized e st) of Inl err \<Rightarrow> Raised err | Inr u \<Rightarrow> Returned]"
  using assms
  by (auto simp: guard_step_def lock_taken_def set_call_def ensure_db_initialized_def
        get_db_init_lock_def init_db_def Let_def split: option.splits)





subsection \<open>Completing a habit\<close>




subsection \<open>The backward walk\<close>

declare streak_loop.simps [simp del] streak_rounds.simps [simp del]

lemma date_sub_Inr:
  "date_sub d k = Inr x \<Longrightarrow> x = d - k \<and> 0 < d - k \<and> d - k \<le> date_max"
  by (auto simp: date_sub_def Let_def split: if_splits)

lemma streak_loop_sound:
  "streak_loop t S k = Inr n \<Longrightarrow>
     k \<le> n \<and> (\<forall>j. k \<le> j \<and> j < n \<longrightarrow> t - int j \<in> S) \<and> t - int n \<notin> S"
proof (induction t S k rule: streak_loop.induct)
  case (1 t S k)
  from "1.prems" obtain x where x: "date_sub t (int k) = Inr x"
    by (subst (asm) streak_loop.simps) (auto split: sum.splits)
  then have xe: "x = t - int k" using date_sub_Inr by blast
  show ?case
  proof (cases "x \<in> S")
    case True
    with "1.prems" x have "streak_loop t S (k + 1) = Inr n"
      by (subst (asm) streak_loop.simps) simp
    from "1.IH"[OF x True this] have ih: "k + 1 \<le> n"
      "\<forall>j. k + 1 \<le> j \<and> j < n \<longrightarrow> t - int j \<in> S" "t - int n \<notin> S" by auto
    have "t - int j \<in> S" if "k \<le> j" "j < n" for j
    proof (cases "j = k")
      case True then show ?thesis using \<open>x \<in> S\<close> xe by simp
    next
      case False then show ?thesis using ih(2) that by auto
    qed
    then show ?thesis using ih by auto
  next
    case False
    with "1.prems" x have "n = k"
      by (subst (asm) streak_loop.simps) simp
    then show ?thesis using False xe by auto
  qed
qed

lemma streak_loop_returns:
  "t \<le> date_max \<Longrightarrow> date_min \<le> d \<Longrightarrow> d \<le> t - int k \<Longrightarrow> d \<notin> S \<Longrightarrow>
     \<exists>n. streak_loop t S k = Inr n"
proof (induction t S k rule: streak_loop.induct)
  case (1 t S k)
  have x: "date_sub t (int k) = Inr (t - int k)"
    using "1.prems" by (auto simp: date_sub_def Let_def date_min_def)
  show ?case
  proof (cases "t - int k \<in> S")
    case True
    then have "d \<noteq> t - int k" using "1.prems" by auto
    then have "d \<le> t - int (k + 1)" using "1.prems" by simp
    from "1.IH"[OF x True "1.prems"(1,2) this "1.prems"(4)]
    show ?thesis using x True by (subst streak_loop.simps) simp
  next
    case False
    then show ?thesis using x by (subst streak_loop.simps) simp
  qed
qed

lemma streak_rounds_bound:
  "finite S \<Longrightarrow> S \<noteq> {} \<Longrightarrow> int (streak_rounds t S k) \<le> max 1 (t - int k - Min S + 2)"
proof (induction t S k rule: streak_rounds.induct)
  case (1 t S k)
  show ?case
  proof (cases "date_sub t (int k)")
    case (Inl a)
    then show ?thesis by (subst streak_rounds.simps) simp
  next
    case (Inr x)
    then have xe: "x = t - int k" using date_sub_Inr by blast
    show ?thesis
    proof (cases "x \<in> S")
      case True
      then have m: "Min S \<le> t - int k" using "1.prems" xe by simp
      from "1.IH"[OF Inr True "1.prems"]
      have "int (streak_rounds t S (k + 1)) \<le> max 1 (t - int (k + 1) - Min S + 2)" .
      then show ?thesis using Inr True m by (subst streak_rounds.simps) auto
    next
      case False
      then show ?thesis using Inr by (subst streak_rounds.simps) simp
    qed
  qed
qed

lemma streak_rounds_result:
  "streak_loop t S k = Inr n \<Longrightarrow> streak_rounds t S k = n - k + 1"
proof (induction t S k rule: streak_loop.induct)
  case (1 t S k)
  from "1.prems" obtain x where x: "date_sub t (int k) = Inr x"
    by (subst (asm) streak_loop.simps) (auto split: sum.splits)
  show ?case
  proof (cases "x \<in> S")
    case True
    with "1.prems" x have r: "streak_loop t S (k + 1) = Inr n"
      by (subst (asm) streak_loop.simps) simp
    then have "k + 1 \<le> n" using streak_loop_sound by blast
    then show ?thesis using "1.IH"[OF x True r] x True
      by (subst streak_rounds.simps) simp
  next
    case False
    with "1.prems" x have "n = k"
      by (subst (asm) streak_loop.simps) simp
    then show ?thesis using False x by (subst streak_rounds.simps) simp
  qed
qed

lemma streak_loop_error: "streak_loop t S k = Inl err \<Longrightarrow> err = OverflowError"
proof (induction t S k rule: streak_loop.induct)
  case (1 t S k)
  show ?case
  proof (cases "date_sub t (int k)")
    case (Inl a)
    then have "a = OverflowError" by (auto simp: date_sub_def Let_def split: if_splits)
    then show ?thesis using "1.prems" Inl by (subst (asm) streak_loop.simps) simp
  next
    case (Inr x)
    show ?thesis
    proof (cases "x \<in> S")
      case True
      with "1.prems" Inr have "streak_loop t S (k + 1) = Inl err"
        by (subst (asm) streak_loop.simps) simp
      then show ?thesis using "1.IH"[OF Inr True] by simp
    next
      case False
      then show ?thesis using "1.prems" Inr by (subst (asm) streak_loop.simps) simp
    qed
  qed
qed

lemma streak_rounds_absent: "t \<notin> S \<Longrightarrow> streak_rounds t S 0 = 1"
  by (subst streak_rounds.simps) (auto simp: date_sub_def Let_def)

text \<open>
  C7. The walk always ends: \<open>streak_loop\<close> is a total function (each round moves one day
  towards \<^verbatim>\<open>date.min\<close>, where the subtraction raises), so it returns a streak or raises
  OverflowError. For a finite non-empty set of completion dates: a returned streak is
  the number of rounds minus one; the loop makes exactly one round when today is not in
  the set; and when the earliest date is not after today it makes at most
  (today - earliest date) + 2 rounds, so that a returned streak is at most
  (today - earliest date) + 1.
\<close>

theorem streak_loop_round_bound:
  assumes "finite S" "S \<noteq> {}"
  shows "(streak_loop tday S 0 = Inl OverflowError \<or> (\<exists>n. streak_loop tday S 0 = Inr n)) \<and>
         (\<forall>n. streak_loop tday S 0 = Inr n \<longrightarrow> streak_rounds tday S 0 = n + 1) \<and>
         (tday \<notin> S \<longrightarrow> streak_rounds tday S 0 = 1) \<and>
         (Min S \<le> tday \<longrightarrow>
            int (streak_rounds tday S 0) \<le> tday - Min S + 2 \<and>
            (\<forall>n. streak_loop tday S 0 = Inr n \<longrightarrow> int n \<le> tday - Min S + 1))"
proof -
  have total: "streak_loop tday S 0 = Inl OverflowError \<or> (\<exists>n. streak_loop tday S 0 = Inr n)"
  proof (cases "streak_loop tday S 0")
    case (Inl err)
    then show ?thesis using streak_loop_error[OF Inl] by simp
  next
    case (Inr n)
    then show ?thesis by simp
  qed
  have rounds: "streak_rounds tday S 0 = n + 1" if "streak_loop tday S 0 = Inr n" for n
    using streak_rounds_result[OF that] by simp
  have absent: "tday \<notin> S \<longrightarrow> streak_rounds tday S 0 = 1"
    using streak_rounds_absent by blast
  have bound: "int (streak_rounds tday S 0) \<le> tday - Min S + 2" if "Min S \<le> tday"
    using streak_rounds_bound[OF assms, of tday 0] that by simp
  have result: "int n \<le> tday - Min S + 1"
    if "Min S \<le> tday" "streak_loop tday S 0 = Inr n" for n
    using bound[OF that(1)] rounds[OF that(2)] by simp
  show ?thesis using total rounds absent bound result by blast
qed

theorem streak_loop_round_bound_witness:
  "finite {738895, 738894::int} \<and> {738895, 738894::int} \<noteq> {} \<and>
   Min {738895, 738894::int} \<le> 738895 \<and>
   streak_loop 738895 {738895, 738894} 0 = Inr 2 \<and>
   streak_rounds 738895 {738895, 738894} 0 = 3 \<and>
   int (streak_rounds 738895 {738895, 738894} 0) \<le> 738895 - Min {738895, 738894} + 2 \<and>
   finite {738890::int} \<and> {738890::int} \<noteq> {} \<and> 738895 \<notin> {738890::int} \<and>
   streak_loop 738895 {738890} 0 = Inr 0 \<and>
   streak_rounds 738895 {738890} 0 = 1"
proof -
  have r: "streak_loop 738895 {738895, 738894} 0 = Inr 2"
    "streak_loop 738895 {738890} 0 = Inr 0"
    by (simp_all add: streak_loop.simps date_sub_def date_max_def Let_def)
  show ?thesis
    using streak_loop_round_bound[of "{738895, 738894}" 738895]
      streak_loop_round_bound[of "{738890}" 738895] r
    by simp
qed

text \<open>
  The bound of the claim as it is written, (today - earliest date) rounds, fails for a
  habit completed today only: the difference is 0, the loop makes two rounds (today is
  present, yesterday is absent) and returns 1.
\<close>

theorem streak_loop_bound_counterexample:
  "738895 - Min {738895::int} = 0 \<and>
   streak_loop 738895 {738895} 0 = Inr 1 \<and>
   streak_rounds 738895 {738895} 0 = 2 \<and>
   \<not> int (streak_rounds 738895 {738895} 0) \<le> 738895 - Min {738895::int}"
  by (simp add: streak_loop.simps streak_rounds.simps date_sub_def date_max_def Let_def)

subsection \<open>The streak of a habit\<close>

lemma rows_set: "set (completion_day_rows habit_id t) = completion_dates habit_id (Some t)"
  by (auto simp: completion_day_rows_def completion_dates_def stored_completions_def)

lemma rows_empty:
  "(completion_day_rows habit_id t = []) = (completion_dates habit_id (Some t) = {})"
  using rows_set[of habit_id t] by (metis set_empty)

lemma streak_after_guard:
  assumes "ensure_db_initialized e st = (Inr (), st1)" "connect e (db st1) = Inr t"
  shows "fst (get_current_streak e habit_id st) =
           (if \<not> sqlite_int habit_id then Inl OverflowError
            else if completion_dates habit_id (Some t) = {} then Inr 0
            else streak_loop (today e) (completion_dates habit_id (Some t)) 0)"
  using assms rows_set[of habit_id t] rows_empty[of habit_id t]
  by (simp add: get_current_streak_def Let_def bind_int_def)

lemma streak_fails_with_guard:
  "fst (ensure_db_initialized e st) = Inl err \<Longrightarrow>
     fst (get_current_streak e habit_id st) = Inl err"
  by (auto simp: get_current_streak_def split: prod.splits sum.splits)

lemma streak_fails_with_connect:
  "ensure_db_initialized e st = (Inr (), st1) \<Longrightarrow> connect e (db st1) = Inl err \<Longrightarrow>
     fst (get_current_streak e habit_id st) = Inl err"
  by (auto simp: get_current_streak_def split: prod.splits sum.splits)

text \<open>
  C1. When the store answers, the flag agrees with the store, the key of the habit is
  an integer SQLite can hold (as every key the store hands out is), today is a date
  Python can represent and some day from \<^verbatim>\<open>date.min\<close> up to today is not a completion date of
  the habit (so the walk meets an absent day before it leaves the calendar):
  \<^verbatim>\<open>get_current_streak\<close> returns the number \<open>n\<close> such that today and the \<open>n - 1\<close> days
  before it are completion dates of the habit and the day \<open>n\<close> days before today is
  not. In particular the result is 0 when today is not a completion date, whatever
  yesterday is.
\<close>

theorem streak_counts_consecutive_days:
  assumes "no_fault e" and "consistent st" and "today e \<le> date_max"
    and "date_min \<le> d" and "d \<le> today e" and "d \<notin> completion_dates habit_id (db st)"
    and "sqlite_int habit_id"
  shows "\<exists>n. fst (get_current_streak e habit_id st) = Inr n \<and>
             (\<forall>k<n. today e - int k \<in> completion_dates habit_id (db st)) \<and>
             today e - int n \<notin> completion_dates habit_id (db st) \<and>
             (today e \<notin> completion_dates habit_id (db st) \<longrightarrow> n = 0)"
proof -
  obtain st1 t where g: "ensure_db_initialized e st = (Inr (), st1)"
    "connect e (db st1) = Inr t" "habit_completions t = stored_completions (db st)"
    using guard_ok[OF assms(1,2)] by blast
  let ?S = "completion_dates habit_id (db st)"
  have S: "completion_dates habit_id (Some t) = ?S"
    using g(3) by (simp add: completion_dates_def stored_completions_def)
  have r: "fst (get_current_streak e habit_id st) =
             (if ?S = {} then Inr 0 else streak_loop (today e) ?S 0)"
    using streak_after_guard[OF g(1,2)] S assms(7) by simp
  have "\<exists>n. streak_loop (today e) ?S 0 = Inr n"
    using streak_loop_returns[of "today e" d 0 ?S] assms by simp
  then obtain n where n: "streak_loop (today e) ?S 0 = Inr n" by blast
  have z: "?S = {} \<Longrightarrow> n = 0"
    using streak_loop_sound[OF n] by (cases n) auto
  have "fst (get_current_streak e habit_id st) = Inr n"
    using r n z by auto
  moreover have "\<forall>k<n. today e - int k \<in> ?S" "today e - int n \<notin> ?S"
    using streak_loop_sound[OF n] by auto
  moreover have "today e \<notin> ?S \<longrightarrow> n = 0"
    using \<open>\<forall>k<n. today e - int k \<in> ?S\<close> by (cases n) auto
  ultimately show ?thesis by blast
qed

theorem streak_counts_consecutive_days_witness:
  "no_fault env0 \<and> consistent st_example \<and> today env0 \<le> date_max \<and> date_min \<le> 738894 \<and>
   738894 \<le> today env0 \<and> 738894 \<notin> completion_dates 1 (db st_example) \<and> sqlite_int 1 \<and>
   (\<exists>n. fst (get_current_streak env0 1 st_example) = Inr n \<and>
        (\<forall>k<n. today env0 - int k \<in> completion_dates 1 (db st_example)) \<and>
        today env0 - int n \<notin> completion_dates 1 (db st_example) \<and>
        (today env0 \<notin> completion_dates 1 (db st_example) \<longrightarrow> n = 0))"
proof -
  have h: "today env0 \<le> date_max" "date_min \<le> 738894" "738894 \<le> today env0"
    "738894 \<notin> completion_dates 1 (db st_example)" "sqlite_int 1"
    by (simp_all add: env0_def date_max_def date_min_def st_example_dates sqlite_int_def)
  show ?thesis
    using streak_counts_consecutive_days[OF st_example_ok h] st_example_ok h by simp
qed

text \<open>
  C2. When the store answers and the flag agrees with the store, a key that SQLite can
  hold (a signed 64-bit integer) and that no stored completion carries has streak 0,
  returned as a value. Nothing is asked about the habit itself: the key may belong to
  a stored habit or to none. For a key outside the 64-bit range the query cannot bind
  it and the call raises OverflowError.
\<close>

theorem streak_zero_without_completions:
  assumes "no_fault e" "consistent st"
    and "\<forall>hc \<in> set (stored_completions (db st)). c_habit_id hc \<noteq> habit_id"
  shows "(sqlite_int habit_id \<longrightarrow> fst (get_current_streak e habit_id st) = Inr 0) \<and>
         (\<not> sqlite_int habit_id \<longrightarrow>
            fst (get_current_streak e habit_id st) = Inl OverflowError)"
proof -
  obtain st1 t where g: "ensure_db_initialized e st = (Inr (), st1)"
    "connect e (db st1) = Inr t" "habit_completions t = stored_completions (db st)"
    using guard_ok[OF assms(1,2)] by blast
  have "completion_dates habit_id (Some t) = {}"
    using assms(3) g(3) by (auto simp: completion_dates_def stored_completions_def)
  then show ?thesis using streak_after_guard[OF g(1,2)] by simp
qed

theorem streak_zero_without_completions_witness:
  "no_fault env0 \<and> consistent st_example \<and> \<not> habit_stored 7 (db st_example) \<and>
   map c_habit_id (stored_completions (db st_example)) = [1, 1] \<and> sqlite_int 7 \<and>
   \<not> sqlite_int (- (2 ^ 63) - 1) \<and>
   fst (get_current_streak env0 7 st_example) = Inr 0 \<and>
   fst (get_current_streak env0 (- (2 ^ 63) - 1) st_example) = Inl OverflowError"
proof -
  have h: "\<forall>hc \<in> set (stored_completions (db st_example)). c_habit_id hc \<noteq> 7"
    "\<forall>hc \<in> set (stored_completions (db st_example)). c_habit_id hc \<noteq> - (2 ^ 63) - 1"
    by (simp_all add: st_example_eval tables_example_def stored_completions_def)
  have m: "map c_habit_id (stored_completions (db st_example)) = [1, 1]"
    by (simp add: st_example_eval tables_example_def stored_completions_def)
  have r: "sqlite_int 7" "\<not> sqlite_int (- (2 ^ 63) - 1)"
    by (simp_all add: sqlite_int_def)
  show ?thesis
    using streak_zero_without_completions[OF st_example_ok h(1)]
      streak_zero_without_completions[OF st_example_ok h(2)] st_example_ok
      st_example_stored(2) m r
    by simp
qed

text \<open>
  The claim as it is written covers every key without stored completions. In the
  example the only key with completions is 1; for the key \<^verbatim>\<open>2 ** 63\<close>
  \<^verbatim>\<open>get_current_streak\<close> raises OverflowError instead of returning 0.
\<close>

theorem streak_overflow_counterexample:
  "map c_habit_id (stored_completions (db st_example)) = [1, 1] \<and>
   fst (get_current_streak env0 (2 ^ 63) st_example) = Inl OverflowError"
  by (simp add: st_example_eval tables_example_def stored_completions_def
        get_current_streak_def ensure_db_initialized_def connect_def env0_def bind_int_def
        sqlite_int_def)

subsection \<open>Several completions on one day\<close>

lemma streak_depends_on_dates:
  assumes "ensure_db_initialized e st = (Inr (), st1)" "connect e (db st1) = Inr t"
    and "ensure_db_initialized e st' = (Inr (), st1')" "connect e (db st1') = Inr t'"
    and "completion_dates habit_id (Some t') = completion_dates habit_id (Some t)"
  shows "fst (get_current_streak e habit_id st') = fst (get_current_streak e habit_id st)"
  using streak_after_guard[OF assms(1,2)] streak_after_guard[OF assms(3,4)] assms(5) by simp

lemma guard_on_tables:
  "db st = Some t \<Longrightarrow>
     (fst (ensure_db_initialized e st) = Inr () \<longrightarrow>
        db (snd (ensure_db_initialized e st)) = Some t) \<and>
     fst (ensure_db_initialized e (st\<lparr>db := Some t'\<rparr>)) = fst (ensure_db_initialized e st) \<and>
     (fst (ensure_db_initialized e st) = Inr () \<longrightarrow>
        db (snd (ensure_db_initialized e (st\<lparr>db := Some t'\<rparr>))) = Some t')"
  by (auto simp: ensure_db_initialized_def init_db_def create_tables_def get_db_init_lock_def Let_def
        split: option.splits prod.splits sum.splits)

lemma streak_on_tables:
  assumes "db st = Some t" "init_fault e = None"
  shows "fst (get_current_streak e habit_id st) =
           (case conn_fault e of
              Some err \<Rightarrow> Inl err
            | None \<Rightarrow>
                if \<not> sqlite_int habit_id then Inl OverflowError
                else if completion_dates habit_id (Some t) = {} then Inr 0
                else streak_loop (today e) (completion_dates habit_id (Some t)) 0)"
proof -
  have "fst (ensure_db_initialized e st) = Inr () \<and>
        db (snd (ensure_db_initialized e st)) = Some t"
    using assms
    by (auto simp: ensure_db_initialized_def init_db_def create_tables_def get_db_init_lock_def Let_def)
  then obtain st1 where g: "ensure_db_initialized e st = (Inr (), st1)" "db st1 = Some t"
    by (cases "ensure_db_initialized e st") auto
  show ?thesis
  proof (cases "conn_fault e")
    case None
    then have "connect e (db st1) = Inr t" using g(2) by (simp add: connect_def)
    then show ?thesis using streak_after_guard[OF g(1)] None by simp
  next
    case (Some err)
    then have "connect e (db st1) = Inl err" by (simp add: connect_def)
    then show ?thesis using streak_fails_with_connect[OF g(1)] Some by simp
  qed
qed

lemma complete_habit_on_tables:
  assumes "db st = Some t"
  shows "\<exists>t'. db (snd (complete_habit e1 habit_id st)) = Some t' \<and>
            (habit_completions t' = habit_completions t \<or>
             (\<exists>row. habit_completions t' = habit_completions t @ [row] \<and>
                    c_completion_date row = now e1))"
  using assms
  by (auto simp: complete_habit_def insert_completion_def ensure_db_initialized_def
        init_db_def create_tables_def get_db_init_lock_def connect_def Let_def bind_int_def
        split: option.splits prod.splits sum.splits)

text \<open>
  C4. Only the presence of a day counts. (1) Adding any completion rows whose day is
  already a completion date of the habit (rows of other habits may come along) leaves
  the result of \<^verbatim>\<open>get_current_streak\<close> unchanged, in every environment. (2) So does a
  call of \<^verbatim>\<open>complete_habit\<close> for the habit on a day that is already a completion date
  of it, as long as schema creation does not fail during the streak query.
\<close>

theorem streak_ignores_repeated_days:
  assumes t: "db st = Some t"
    and extra: "\<forall>x \<in> set extra. c_habit_id x = habit_id \<longrightarrow>
                   ts_day (c_completion_date x) \<in> completion_dates habit_id (db st)"
    and again: "ts_day (now e1) \<in> completion_dates habit_id (db st)"
    and init: "init_fault e' = None"
  shows "fst (get_current_streak e habit_id
                (st\<lparr>db := Some (t\<lparr>habit_completions := habit_completions t @ extra\<rparr>)\<rparr>)) =
         fst (get_current_streak e habit_id st) \<and>
         fst (get_current_streak e' habit_id (snd (complete_habit e1 habit_id st))) =
         fst (get_current_streak e' habit_id st)"
proof
  let ?t' = "t\<lparr>habit_completions := habit_completions t @ extra\<rparr>"
  let ?st' = "st\<lparr>db := Some ?t'\<rparr>"
  note g = guard_on_tables[OF t, of e ?t']
  have d: "completion_dates habit_id (Some ?t') = completion_dates habit_id (Some t)"
    using extra t by (auto simp: completion_dates_def stored_completions_def)
  show "fst (get_current_streak e habit_id ?st') = fst (get_current_streak e habit_id st)"
  proof (cases "fst (ensure_db_initialized e st)")
    case (Inl err)
    then show ?thesis using g streak_fails_with_guard[of e _ err habit_id] by simp
  next
    case (Inr u)
    then have a: "ensure_db_initialized e st = (Inr (), snd (ensure_db_initialized e st))"
      and a': "ensure_db_initialized e ?st' = (Inr (), snd (ensure_db_initialized e ?st'))"
      using g by (auto simp: prod_eq_iff)
    have b: "db (snd (ensure_db_initialized e st)) = Some t"
      and b': "db (snd (ensure_db_initialized e ?st')) = Some ?t'"
      using g Inr by auto
    show ?thesis
    proof (cases "conn_fault e")
      case None
      then have c: "connect e (db (snd (ensure_db_initialized e st))) = Inr t"
        and c': "connect e (db (snd (ensure_db_initialized e ?st'))) = Inr ?t'"
        using b b' by (auto simp: connect_def)
      show ?thesis using streak_depends_on_dates[OF a c a' c' d] .
    next
      case (Some err)
      then have c: "connect e (db (snd (ensure_db_initialized e st))) = Inl err"
        and c': "connect e (db (snd (ensure_db_initialized e ?st'))) = Inl err"
        by (auto simp: connect_def)
      show ?thesis
        using streak_fails_with_connect[OF a c] streak_fails_with_connect[OF a' c'] by simp
    qed
  qed
next
  obtain t' where t': "db (snd (complete_habit e1 habit_id st)) = Some t'"
    and rows: "habit_completions t' = habit_completions t \<or>
               (\<exists>row. habit_completions t' = habit_completions t @ [row] \<and>
                      c_completion_date row = now e1)"
    using complete_habit_on_tables[OF t, of e1 habit_id] by blast
  have eq: "completion_dates habit_id (Some t') = completion_dates habit_id (Some t)"
    using rows again t by (auto simp: completion_dates_def stored_completions_def)
  show "fst (get_current_streak e' habit_id (snd (complete_habit e1 habit_id st))) =
        fst (get_current_streak e' habit_id st)"
    by (simp add: streak_on_tables[OF t' init] streak_on_tables[OF t init] eq
          split: option.splits)
qed

theorem streak_ignores_repeated_days_witness:
  "db st_example = Some tables_example \<and> c_habit_id completion_again = 1 \<and>
   ts_day (c_completion_date completion_again) \<in> completion_dates 1 (db st_example) \<and>
   ts_day (now env0) \<in> completion_dates 1 (db st_example) \<and> init_fault env0 = None \<and>
   fst (get_current_streak env0 1
          (st_example\<lparr>db := Some (tables_example\<lparr>habit_completions :=
             habit_completions tables_example @ [completion_again]\<rparr>)\<rparr>)) =
   fst (get_current_streak env0 1 st_example) \<and>
   fst (get_current_streak env0 1 (snd (complete_habit env0 1 st_example))) =
   fst (get_current_streak env0 1 st_example) \<and>
   fst (get_current_streak env0 1 st_example) = Inr 1"
proof -
  have t: "db st_example = Some tables_example" by (simp add: st_example_eval)
  have x: "\<forall>x \<in> set [completion_again]. c_habit_id x = 1 \<longrightarrow>
             ts_day (c_completion_date x) \<in> completion_dates 1 (db st_example)"
    by (simp add: completion_again_def st_example_dates)
  have a: "ts_day (now env0) \<in> completion_dates 1 (db st_example)"
    by (simp add: st_example_dates env0_def)
  have i: "init_fault env0 = None" by (simp add: env0_def)
  have v: "fst (get_current_streak env0 1 st_example) = Inr 1"
    using streak_on_tables[OF t i, where habit_id = 1] t st_example_dates(1)
    by (simp add: env0_def streak_loop.simps date_sub_def date_max_def Let_def sqlite_int_def)
  have c: "c_habit_id completion_again = 1"
    "ts_day (c_completion_date completion_again) \<in> completion_dates 1 (db st_example)"
    by (simp_all add: completion_again_def st_example_dates)
  show ?thesis
    using streak_ignores_repeated_days[OF t x a i, of env0] t c a i v by simp
qed

subsection \<open>What a call does to the store\<close>

lemma guard_db:
  "db (snd (ensure_db_initialized e st)) = db st \<or>
   db (snd (ensure_db_initialized e st)) = Some (create_tables (db st))"
  by (auto simp: ensure_db_initialized_def init_db_def get_db_init_lock_def Let_def
        split: option.splits)

lemma connect_Inr: "connect e s = Inr t \<Longrightarrow> s = Some t"
  by (auto simp: connect_def split: option.splits)

lemma create_tables_Some: "s = Some t \<Longrightarrow> create_tables s = t"
  by (simp add: create_tables_def)

lemma add_habit_db:
  "db (snd (add_habit e n d st)) = db (snd (ensure_db_initialized e st)) \<or>
   (\<exists>t. db (snd (ensure_db_initialized e st)) = Some t \<and>
        db (snd (add_habit e n d st)) = Some (insert_habit n d (now e) t))"
  by (auto simp: add_habit_def split: prod.splits sum.splits dest: connect_Inr)

lemma complete_habit_db:
  "db (snd (complete_habit e h st)) = db (snd (ensure_db_initialized e st)) \<or>
   (\<exists>t t'. db (snd (ensure_db_initialized e st)) = Some t \<and>
        insert_completion h (now e) t = Inr t' \<and>
        db (snd (complete_habit e h st)) = Some t')"
  by (auto simp: complete_habit_def bind_int_def split: prod.splits sum.splits dest: connect_Inr)

lemma delete_habit_db:
  "db (snd (delete_habit e h st)) = db (snd (ensure_db_initialized e st)) \<or>
   (\<exists>t. db (snd (ensure_db_initialized e st)) = Some t \<and>
        db (snd (delete_habit e h st)) = Some (delete_rows h t))"
  by (auto simp: delete_habit_def bind_int_def split: prod.splits sum.splits dest: connect_Inr)

lemma read_only_db:
  "db (snd (list_habits e st)) = db (snd (ensure_db_initialized e st))"
  "db (snd (list_completions e st)) = db (snd (ensure_db_initialized e st))"
  "db (snd (get_current_streak e h st)) = db (snd (ensure_db_initialized e st))"
  by (auto simp: list_habits_def list_completions_def get_current_streak_def Let_def
        split: prod.splits sum.splits)

lemma restart_db:
  "db (process_start e s) = s \<or> db (process_start e s) = Some (create_tables s)"
  by (auto simp: process_start_def init_db_def split: option.splits)

text \<open>
  A property of the store survives a call when it survives table creation and the three
  statements that write: the two inserts and the delete.
\<close>

lemma step_preserves:
  assumes P: "P (db st)"
    and create: "P (db st) \<Longrightarrow> P (Some (create_tables (db st)))"
    and add: "\<And>t n d. c = AddHabit n d \<Longrightarrow> P (Some t) \<Longrightarrow> P (Some (insert_habit n d (now e) t))"
    and complete: "\<And>t t' h. c = CompleteHabit h \<Longrightarrow> P (Some t) \<Longrightarrow>
        insert_completion h (now e) t = Inr t' \<Longrightarrow> P (Some t')"
    and delete: "\<And>t h. c = DeleteHabit h \<Longrightarrow> P (Some t) \<Longrightarrow> P (Some (delete_rows h t))"
  shows "P (db (step e c st))"
proof -
  have g: "P (db (snd (ensure_db_initialized e st)))"
    using guard_db[of e st] P create by auto
  show ?thesis
  proof (cases c)
    case (AddHabit n d)
    then show ?thesis using add_habit_db[of e n d st] g add by auto
  next
    case ListHabits
    then show ?thesis using g by (simp add: read_only_db)
  next
    case (CompleteHabit h)
    then show ?thesis using complete_habit_db[of e h st] g complete by auto
  next
    case ListCompletions
    then show ?thesis using g by (simp add: read_only_db)
  next
    case (DeleteHabit h)
    then show ?thesis using delete_habit_db[of e h st] g delete by auto
  next
    case (GetCurrentStreak h)
    then show ?thesis using g by (simp add: read_only_db)
  next
    case Restart
    then show ?thesis using restart_db[of e "db st"] P create by auto
  qed
qed

subsection \<open>Keys and references in reachable states\<close>

lemma inv_create: "store_inv s \<Longrightarrow> store_inv (Some (create_tables s))"
  by (auto simp: store_inv_def create_tables_def empty_tables_def keys_in_sequence_def
      referential_integrity_def split: option.splits)

lemma inv_insert_habit: "store_inv (Some t) \<Longrightarrow> store_inv (Some (insert_habit n d ts t))"
  by (fastforce simp: store_inv_def insert_habit_def Let_def keys_in_sequence_def
      referential_integrity_def habit_exists_def filter_empty_conv)

lemma inv_insert_completion:
  "store_inv (Some t) \<Longrightarrow> insert_completion h ts t = Inr t' \<Longrightarrow> store_inv (Some t')"
  by (fastforce simp: store_inv_def insert_completion_def Let_def keys_in_sequence_def
      referential_integrity_def habit_exists_def filter_empty_conv split: if_splits)

lemma inv_delete: "store_inv (Some t) \<Longrightarrow> store_inv (Some (delete_rows h t))"
  by (fastforce simp: store_inv_def delete_rows_def keys_in_sequence_def
      referential_integrity_def habit_exists_def filter_empty_conv distinct_map_filter)

lemma step_inv: "store_inv (db st) \<Longrightarrow> store_inv (db (step e c st))"
  by (rule step_preserves) (auto intro: inv_create inv_insert_habit inv_insert_completion inv_delete)

lemma run_inv: "store_inv (db st) \<Longrightarrow> store_inv (db (run cs st))"
  by (induction cs arbitrary: st) (auto simp: step_inv)

lemma start_inv: "store_inv (db (process_start e None))"
proof -
  have "store_inv None" by (simp add: store_inv_def)
  then show ?thesis using restart_db[of e None] inv_create[of None] by auto
qed

lemma reachable_inv: "reachable st \<Longrightarrow> store_inv (db st)"
  unfolding reachable_def using run_inv start_inv by blast

subsection \<open>Names of habits\<close>

lemma step_names:
  assumes "names_nonempty (db st)" "\<forall>n d. c = AddHabit n d \<longrightarrow> n \<noteq> []"
  shows "names_nonempty (db (step e c st))"
  using assms(1)
proof (rule step_preserves)
  show "names_nonempty (Some (create_tables (db st)))"
    using assms(1)
    by (auto simp: names_nonempty_def stored_habits_def create_tables_def empty_tables_def
        split: option.splits)
next
  fix t n d assume "c = AddHabit n d" "names_nonempty (Some t)"
  then show "names_nonempty (Some (insert_habit n d (now e) t))"
    using assms(2) by (auto simp: names_nonempty_def stored_habits_def insert_habit_def Let_def)
next
  fix t t' h assume "names_nonempty (Some t)" "insert_completion h (now e) t = Inr t'"
  then show "names_nonempty (Some t')"
    by (auto simp: names_nonempty_def stored_habits_def insert_completion_def Let_def
        split: if_splits)
next
  fix t h assume "names_nonempty (Some t)"
  then show "names_nonempty (Some (delete_rows h t))"
    by (auto simp: names_nonempty_def stored_habits_def delete_rows_def)
qed

lemma run_names:
  "names_nonempty (db st) \<Longrightarrow> adds_nonempty cs \<Longrightarrow> names_nonempty (db (run cs st))"
proof (induction cs arbitrary: st)
  case Nil
  then show ?case by simp
next
  case (Cons x cs)
  obtain e c where x: "x = (e, c)" by (cases x)
  have "names_nonempty (db (step e c st))"
    using Cons.prems x by (intro step_names) (auto simp: adds_nonempty_def)
  moreover have "adds_nonempty cs" using Cons.prems by (auto simp: adds_nonempty_def)
  ultimately show ?case using Cons.IH x by simp
qed

lemma start_names: "names_nonempty (db (process_start e None))"
  using restart_db[of e None]
  by (auto simp: names_nonempty_def stored_habits_def create_tables_def empty_tables_def)

lemma add_habit_row:
  assumes "no_fault e" "consistent st"
  shows "fst (add_habit e name description st) =
           Inr (''Habit '' @ [CHR 0x27] @ name @ [CHR 0x27] @ '' added successfully.'') \<and>
         (\<exists>row. stored_habits (db (snd (add_habit e name description st))) =
                  stored_habits (db st) @ [row] \<and>
                h_name row = name \<and> h_description row = description) \<and>
         stored_completions (db (snd (add_habit e name description st))) =
           stored_completions (db st)"
proof -
  obtain st1 t where g: "ensure_db_initialized e st = (Inr (), st1)"
    "connect e (db st1) = Inr t" "habit_completions t = stored_completions (db st)"
    "habits t = stored_habits (db st)"
    using guard_ok[OF assms(1,2)] by blast
  show ?thesis using g
    by (simp add: add_habit_def insert_habit_def Let_def stored_habits_def
        stored_completions_def)
qed

text \<open>
  C5, as the code has it. \<^verbatim>\<open>add_habit\<close> does not look at the name: when the store
  answers it stores the given text unchanged, the empty text too, in one new habit row
  and confirms. So a stored name is empty only if a call gave the empty name: after any
  history in which every \<^verbatim>\<open>add_habit\<close> was given a non-empty name, no stored habit has an
  empty name.
\<close>

theorem habit_names_as_given:
  "(no_fault e \<and> consistent st \<longrightarrow>
      fst (add_habit e name description st) =
        Inr (''Habit '' @ [CHR 0x27] @ name @ [CHR 0x27] @ '' added successfully.'') \<and>
      (\<exists>row. stored_habits (db (snd (add_habit e name description st))) =
               stored_habits (db st) @ [row] \<and>
             h_name row = name \<and> h_description row = description)) \<and>
   (adds_nonempty cs \<longrightarrow> names_nonempty (db (run cs (process_start e0 None))))"
  using add_habit_row[of e st name description] run_names[OF start_names, of cs e0]
  by blast

theorem habit_names_as_given_witness:
  "no_fault env0 \<and> consistent st_example \<and> adds_nonempty history_example \<and>
   fst (add_habit env0 ''Read'' [] st_example) =
     Inr (''Habit '' @ [CHR 0x27] @ ''Read'' @ [CHR 0x27] @ '' added successfully.'') \<and>
   names_nonempty (db st_example) \<and>
   map h_name (stored_habits (db st_example)) = [''Exercise'']"
proof -
  have a: "adds_nonempty history_example"
    by (simp add: adds_nonempty_def history_example_def)
  have m: "map h_name (stored_habits (db st_example)) = [''Exercise'']"
    by (simp add: st_example_eval tables_example_def stored_habits_def)
  show ?thesis
    using habit_names_as_given[of env0 st_example "''Read''" "[]" history_example env0]
      st_example_ok a m
    by (simp add: st_example_def)
qed

text \<open>
  The claim as it is written fails: the empty name is accepted and stored.
\<close>

theorem empty_name_counterexample:
  "fst (add_habit env0 '''' '''' (process_start env0 None)) =
     Inr (''Habit '' @ [CHR 0x27, CHR 0x27] @ '' added successfully.'') \<and>
   map h_name
     (stored_habits (db (run [(env0, AddHabit '''' '''')] (process_start env0 None)))) =
     ['''']"
  by (simp add: process_start_def init_db_def create_tables_def env0_def add_habit_def
        ensure_db_initialized_def get_db_init_lock_def connect_def Let_def empty_tables_def
        insert_habit_def stored_habits_def)

subsection \<open>Completions and deleted habits\<close>

lemma habit_exists_stored: "habit_exists h t = habit_stored h (Some t)"
  by (auto simp: habit_exists_def habit_stored_def stored_habits_def filter_empty_conv)

lemma step_retired: "key_retired h (db st) \<Longrightarrow> key_retired h (db (step e c st))"
proof (rule step_preserves)
  assume "key_retired h (db st)"
  then show "key_retired h (Some (create_tables (db st)))"
    by (auto simp: key_retired_def create_tables_def split: option.splits)
next
  fix t n d assume "key_retired h (Some t)"
  then show "key_retired h (Some (insert_habit n d (now e) t))"
    by (auto simp: key_retired_def insert_habit_def Let_def habit_exists_def filter_empty_conv)
next
  fix t t' h' assume k: "key_retired h (Some t)" and i: "insert_completion h' (now e) t = Inr t'"
  from i have ex: "habit_exists h' t"
    and t': "t' = t\<lparr>habit_completions := habit_completions t @
                     [\<lparr>c_id = completions_seq t + 1, c_habit_id = h',
                       c_completion_date = now e\<rparr>],
                   completions_seq := completions_seq t + 1\<rparr>"
    by (auto simp: insert_completion_def Let_def split: if_splits)
  from k ex have "h' \<noteq> h" by (auto simp: key_retired_def)
  then show "key_retired h (Some t')"
    using k unfolding t' by (simp add: key_retired_def habit_exists_def)
next
  fix t h' assume "key_retired h (Some t)"
  then show "key_retired h (Some (delete_rows h' t))"
    by (auto simp: key_retired_def delete_rows_def habit_exists_def filter_empty_conv)
qed

lemma run_retired: "key_retired h (db st) \<Longrightarrow> key_retired h (db (run cs st))"
  by (induction cs arbitrary: st) (auto simp: step_retired)

lemma delete_habit_success:
  assumes "fst (delete_habit e h st) = Inr msg"
  shows "\<exists>t. create_tables (db st) = t \<and> stored_habits (db st) = habits t \<and>
             stored_completions (db st) = habit_completions t \<and>
             db (snd (delete_habit e h st)) = Some (delete_rows h t)"
proof -
  obtain r st1 where g: "ensure_db_initialized e st = (r, st1)"
    by (cases "ensure_db_initialized e st")
  with assms obtain t where t: "connect e (db st1) = Inr t"
    "db (snd (delete_habit e h st)) = Some (delete_rows h t)"
    by (auto simp: delete_habit_def bind_int_def split: sum.splits if_splits)
  have s: "db st1 = Some t" using t(1) by (rule connect_Inr)
  have "db st1 = db st \<or> db st1 = Some (create_tables (db st))"
    using guard_db[of e st] g by simp
  then have "create_tables (db st) = t"
    using s by (auto simp: create_tables_def split: option.splits)
  moreover have "stored_habits (db st) = habits t" "stored_completions (db st) = habit_completions t"
    using guard_rows[of e st] g s by (auto simp: stored_habits_def stored_completions_def)
  ultimately show ?thesis using t(2) by simp
qed

lemma delete_rows_retires:
  assumes "store_inv (Some t)"
  shows "\<not> habit_exists h (delete_rows h t) \<and>
         (\<forall>hc \<in> set (habit_completions (delete_rows h t)). c_habit_id hc \<noteq> h)"
  using assms
  by (auto simp: store_inv_def referential_integrity_def delete_rows_def habit_exists_def
      filter_empty_conv)

lemma delete_rows_seq:
  assumes "store_inv (Some t)" "habit_exists h t"
  shows "h \<le> habits_seq (delete_rows h t)"
  using assms
  by (auto simp: store_inv_def keys_in_sequence_def delete_rows_def habit_exists_def
      filter_empty_conv)

lemma list_completions_rows:
  assumes "fst (list_completions e st) = Inr rows" "r \<in> set rows"
  shows "\<exists>hc \<in> set (stored_completions (db st)). \<exists>h \<in> set (stored_habits (db st)).
           r = (c_id hc, h_name h, c_completion_date hc) \<and> c_habit_id hc = h_id h"
proof -
  obtain u st1 where g: "ensure_db_initialized e st = (u, st1)"
    by (cases "ensure_db_initialized e st")
  with assms(1) obtain t where t: "connect e (db st1) = Inr t"
    "rows = rev (sort_key (\<lambda>(i, n, ts). ts_key ts) (joined_rows t))"
    by (auto simp: list_completions_def split: sum.splits)
  have s: "db st1 = Some t" using t(1) by (rule connect_Inr)
  have eq: "stored_habits (db st) = habits t" "stored_completions (db st) = habit_completions t"
    using guard_rows[of e st] g s by (auto simp: stored_habits_def stored_completions_def)
  have "r \<in> set (joined_rows t)" using assms(2) t(2) by simp
  then show ?thesis unfolding eq by (auto simp: joined_rows_def)
qed

lemma complete_habit_needs_habit:
  assumes "stored_completions (db (snd (complete_habit e h st))) \<noteq> stored_completions (db st)"
  shows "habit_stored h (db st)"
proof -
  from complete_habit_db[of e h st] guard_rows[of e st] assms
  obtain t t' where t: "db (snd (ensure_db_initialized e st)) = Some t"
    "insert_completion h (now e) t = Inr t'"
    by auto
  then have "habit_exists h t" by (auto simp: insert_completion_def split: if_splits)
  moreover have "habits t = stored_habits (db st)"
    using guard_rows[of e st] t(1) by (simp add: stored_habits_def)
  ultimately show ?thesis
    by (auto simp: habit_exists_def habit_stored_def filter_empty_conv)
qed

text \<open>
  C6. In every state reachable from a fresh database: (1) each stored completion
  belongs to a stored habit; (2) \<^verbatim>\<open>complete_habit\<close> adds a completion only for a habit
  that is stored at that moment; (3) after a \<^verbatim>\<open>delete_habit\<close> that returns, neither the
  habit nor any completion with its key is stored; (4) after deleting a stored habit,
  whatever calls follow, every row that \<^verbatim>\<open>list_completions\<close> returns is the join of a
  stored completion with a stored habit whose key is not the deleted one.
\<close>

theorem completions_follow_habits:
  assumes "reachable st"
  shows "(\<forall>hc \<in> set (stored_completions (db st)). habit_stored (c_habit_id hc) (db st)) \<and>
         (\<forall>e h. stored_completions (db (snd (complete_habit e h st))) \<noteq>
                  stored_completions (db st) \<longrightarrow> habit_stored h (db st)) \<and>
         (\<forall>e h msg. fst (delete_habit e h st) = Inr msg \<longrightarrow>
            \<not> habit_stored h (db (snd (delete_habit e h st))) \<and>
            (\<forall>hc \<in> set (stored_completions (db (snd (delete_habit e h st)))).
               c_habit_id hc \<noteq> h)) \<and>
         (\<forall>e h msg cs e' rows.
            habit_stored h (db st) \<and> fst (delete_habit e h st) = Inr msg \<and>
            fst (list_completions e' (run cs (snd (delete_habit e h st)))) = Inr rows \<longrightarrow>
            (\<forall>r \<in> set rows.
               \<exists>hc \<in> set (stored_completions (db (run cs (snd (delete_habit e h st))))).
               \<exists>h' \<in> set (stored_habits (db (run cs (snd (delete_habit e h st))))).
                 r = (c_id hc, h_name h', c_completion_date hc) \<and>
                 c_habit_id hc = h_id h' \<and> h_id h' \<noteq> h))"
proof -
  have inv: "store_inv (db st)" using assms by (rule reachable_inv)
  have inv': "store_inv (Some (create_tables (db st)))" using inv by (rule inv_create)
  have one: "\<forall>hc \<in> set (stored_completions (db st)). habit_stored (c_habit_id hc) (db st)"
    using inv
    by (auto simp: store_inv_def referential_integrity_def habit_exists_stored
        stored_completions_def split: option.splits)
  have two: "\<forall>e h. stored_completions (db (snd (complete_habit e h st))) \<noteq>
                  stored_completions (db st) \<longrightarrow> habit_stored h (db st)"
    using complete_habit_needs_habit by blast
  have three: "\<not> habit_stored h (db (snd (delete_habit e h st))) \<and>
            (\<forall>hc \<in> set (stored_completions (db (snd (delete_habit e h st)))).
               c_habit_id hc \<noteq> h)"
    if "fst (delete_habit e h st) = Inr msg" for e h msg
  proof -
    from delete_habit_success[OF that]
    have d: "db (snd (delete_habit e h st)) = Some (delete_rows h (create_tables (db st)))"
      by auto
    show ?thesis
      using delete_rows_retires[OF inv', of h] unfolding d
      by (simp add: habit_exists_stored stored_completions_def)
  qed
  have four: "\<exists>hc \<in> set (stored_completions (db (run cs (snd (delete_habit e h st))))).
               \<exists>h' \<in> set (stored_habits (db (run cs (snd (delete_habit e h st))))).
                 r = (c_id hc, h_name h', c_completion_date hc) \<and>
                 c_habit_id hc = h_id h' \<and> h_id h' \<noteq> h"
    if a: "habit_stored h (db st)" "fst (delete_habit e h st) = Inr msg"
      "fst (list_completions e' (run cs (snd (delete_habit e h st)))) = Inr rows"
      "r \<in> set rows"
    for e h msg cs e' rows r
  proof -
    let ?t = "create_tables (db st)"
    from delete_habit_success[OF a(2)]
    have d: "db (snd (delete_habit e h st)) = Some (delete_rows h ?t)"
      and hs: "stored_habits (db st) = habits ?t"
      by auto
    have ex: "habit_exists h ?t"
      using a(1) hs by (auto simp: habit_exists_def habit_stored_def filter_empty_conv)
    have "key_retired h (db (snd (delete_habit e h st)))"
      unfolding d using delete_rows_retires[OF inv', of h] delete_rows_seq[OF inv' ex]
      by (simp add: key_retired_def)
    then have k: "key_retired h (db (run cs (snd (delete_habit e h st))))"
      by (rule run_retired)
    from list_completions_rows[OF a(3,4)]
    obtain hc h' where r: "hc \<in> set (stored_completions (db (run cs (snd (delete_habit e h st)))))"
      "h' \<in> set (stored_habits (db (run cs (snd (delete_habit e h st)))))"
      "r = (c_id hc, h_name h', c_completion_date hc)" "c_habit_id hc = h_id h'"
      by blast
    have "h_id h' \<noteq> h"
      using k r(2)
      by (auto simp: key_retired_def habit_exists_def stored_habits_def filter_empty_conv
          split: option.splits)
    then show ?thesis using r by blast
  qed
  show ?thesis using one two three four by blast
qed

lemma st_example_reachable: "reachable st_example"
  unfolding reachable_def st_example_def by blast

lemma st_after_delete_eval:
  "snd (delete_habit env0 1 st_example) =
     \<lparr>db_initialized = True, db_init_lock = Some False,
      db = Some \<lparr>habits = [], habit_completions = [], habits_seq = 1, completions_seq = 2\<rparr>\<rparr>"
  by (simp add: st_example_eval tables_example_def delete_habit_def ensure_db_initialized_def
        connect_def env0_def delete_rows_def habit_exists_def bind_int_def sqlite_int_def)

lemma st_later_eval:
  "run later_example (snd (delete_habit env0 1 st_example)) =
     \<lparr>db_initialized = True, db_init_lock = Some False,
      db = Some
        \<lparr>habits =
           [\<lparr>h_id = 2, h_name = ''Read'', h_description = [],
             h_created_at = \<lparr>ts_day = 738895, ts_secs = 43200\<rparr>, h_is_active = True\<rparr>],
         habit_completions =
           [\<lparr>c_id = 3, c_habit_id = 2,
             c_completion_date = \<lparr>ts_day = 738895, ts_secs = 43200\<rparr>\<rparr>],
         habits_seq = 2, completions_seq = 3\<rparr>\<rparr>"
  unfolding st_after_delete_eval
  by (simp add: later_example_def add_habit_def complete_habit_def
        ensure_db_initialized_def connect_def env0_def insert_habit_def insert_completion_def
        habit_exists_def Let_def bind_int_def sqlite_int_def)

theorem completions_follow_habits_witness:
  "reachable st_example \<and> habit_stored 1 (db st_example) \<and>
   map c_habit_id (stored_completions (db st_example)) = [1, 1] \<and>
   fst (delete_habit env0 1 st_example) =
     Inr (''Habit '' @ str_int 1 @ '' deleted successfully.'') \<and>
   \<not> habit_stored 1 (db (snd (delete_habit env0 1 st_example))) \<and>
   1 \<notin> c_habit_id ` set (stored_completions (db (snd (delete_habit env0 1 st_example)))) \<and>
   fst (list_completions env0 (run later_example (snd (delete_habit env0 1 st_example)))) =
     Inr [(3, ''Read'', \<lparr>ts_day = 738895, ts_secs = 43200\<rparr>)] \<and>
   1 \<notin> h_id ` set (stored_habits
                     (db (run later_example (snd (delete_habit env0 1 st_example)))))"
proof -
  have d: "fst (delete_habit env0 1 st_example) =
             Inr (''Habit '' @ str_int 1 @ '' deleted successfully.'')"
    by (simp add: st_example_eval delete_habit_def ensure_db_initialized_def connect_def
          env0_def bind_int_def sqlite_int_def)
  have l: "fst (list_completions env0
                  (run later_example (snd (delete_habit env0 1 st_example)))) =
             Inr [(3, ''Read'', \<lparr>ts_day = 738895, ts_secs = 43200\<rparr>)]"
    unfolding st_later_eval
    by (simp add: list_completions_def ensure_db_initialized_def connect_def env0_def
          joined_rows_def)
  have m: "map c_habit_id (stored_completions (db st_example)) = [1, 1]"
    by (simp add: st_example_eval tables_example_def stored_completions_def)
  note t = completions_follow_habits[OF st_example_reachable]
  have three: "\<not> habit_stored 1 (db (snd (delete_habit env0 1 st_example))) \<and>
      (\<forall>hc \<in> set (stored_completions (db (snd (delete_habit env0 1 st_example)))).
         c_habit_id hc \<noteq> 1)"
    using t d by blast
  have four: "\<forall>r \<in> set [(3, ''Read'', \<lparr>ts_day = 738895, ts_secs = 43200\<rparr>)].
      \<exists>hc \<in> set (stored_completions
                  (db (run later_example (snd (delete_habit env0 1 st_example))))).
      \<exists>h' \<in> set (stored_habits
                  (db (run later_example (snd (delete_habit env0 1 st_example))))).
        r = (c_id hc, h_name h', c_completion_date hc) \<and>
        c_habit_id hc = h_id h' \<and> h_id h' \<noteq> 1"
    using t st_example_stored(1) d l by blast
  have h: "1 \<notin> h_id ` set (stored_habits
                     (db (run later_example (snd (delete_habit env0 1 st_example)))))"
    unfolding st_later_eval by (simp add: stored_habits_def)
  show ?thesis
    using st_example_reachable st_example_stored(1) m d three l h by auto
qed

end
